theory Spec2Isabelle
  imports Complex_Main "HOL-Library.Multiset" "HOL-Library.Word" "HOL-Library.Log_Nat"
begin

section \<open>The generic algorithms of core\_numeric.h\<close>

text \<open>
  The header is a set of function templates over an element type \<open>T\<close>. The concepts
  \<open>Addable\<close>, \<open>Divisible\<close> and \<open>Comparable\<close> only say which operators \<open>T\<close> has;
  what the operators compute is the element type's own business. Each template is
  therefore a function that takes the operators it calls as parameters:
  \<open>dflt\<close> is the value-initialised \<open>T{}\<close>, \<open>add\<close> is \<open>operator+\<close>, \<open>sub\<close> is
  \<open>operator-\<close>, \<open>divn\<close> is \<open>operator/\<close> with a \<open>std::size_t\<close> on the right, and
  \<open>gt\<close> is \<open>operator>\<close>. A container is the list of its elements in iteration order,
  and \<open>std::size\<close> is \<open>length\<close>. The local names are those of the header.
\<close>

datatype failure = IllFormed | DivisionByZero

text \<open>
  \<open>IllFormed\<close>: the call does not instantiate (a fold expression over an empty pack).
  \<open>DivisionByZero\<close>: a division by a zero count was executed. Every division by a count
  goes through \<open>div_count\<close>, so a result \<open>Inr v\<close> says that no such division happened.
\<close>

definition div_count :: "('a \<Rightarrow> nat \<Rightarrow> 'b) \<Rightarrow> 'a \<Rightarrow> nat \<Rightarrow> failure + 'b" where
  "div_count divn a n = (if n = 0 then Inl DivisionByZero else Inr (divn a n))"

subsection \<open>sum (lines 47-57)\<close>

fun sum_loop :: "('a \<Rightarrow> 'a \<Rightarrow> 'a) \<Rightarrow> 'a \<Rightarrow> 'a list \<Rightarrow> 'a" where
  "sum_loop add resultado [] = resultado"
| "sum_loop add resultado (valor # resto) = sum_loop add (add resultado valor) resto"

definition sum_seq :: "'a \<Rightarrow> ('a \<Rightarrow> 'a \<Rightarrow> 'a) \<Rightarrow> 'a list \<Rightarrow> 'a" where
  "sum_seq dflt add contenedor = sum_loop add dflt contenedor"

subsection \<open>mean (lines 61-73)\<close>

definition mean ::
  "'a \<Rightarrow> ('a \<Rightarrow> 'a \<Rightarrow> 'a) \<Rightarrow> ('a \<Rightarrow> nat \<Rightarrow> 'a) \<Rightarrow> 'a list \<Rightarrow> failure + 'a" where
  "mean dflt add divn contenedor =
     (let suma_total = sum_seq dflt add contenedor;
          n = length contenedor
      in if n = 0 then Inr dflt else div_count divn suma_total n)"

subsection \<open>variance (lines 77-108)\<close>

text \<open>
  \<open>if constexpr (std::is_integral_v<T>)\<close> keeps one of two loops: the integral one squares
  the deviation with \<open>operator*\<close>, the other one with \<open>std::pow(diff, 2)\<close>. Only the
  operation of the kept branch has to exist for \<open>T\<close>.
\<close>

datatype 'a squaring = Integral "'a \<Rightarrow> 'a \<Rightarrow> 'a" | NonIntegral "'a \<Rightarrow> 'a"

fun variance_loop_mul ::
  "('a \<Rightarrow> 'a \<Rightarrow> 'a) \<Rightarrow> ('a \<Rightarrow> 'a \<Rightarrow> 'a) \<Rightarrow> ('a \<Rightarrow> 'a \<Rightarrow> 'a) \<Rightarrow> 'a \<Rightarrow> 'a \<Rightarrow> 'a list \<Rightarrow> 'a" where
  "variance_loop_mul add sub mul promedio acumulador [] = acumulador"
| "variance_loop_mul add sub mul promedio acumulador (valor # resto) =
     (let diff = sub valor promedio
      in variance_loop_mul add sub mul promedio (add acumulador (mul diff diff)) resto)"

fun variance_loop_pow ::
  "('a \<Rightarrow> 'a \<Rightarrow> 'a) \<Rightarrow> ('a \<Rightarrow> 'a \<Rightarrow> 'a) \<Rightarrow> ('a \<Rightarrow> 'a) \<Rightarrow> 'a \<Rightarrow> 'a \<Rightarrow> 'a list \<Rightarrow> 'a" where
  "variance_loop_pow add sub pow2 promedio acumulador [] = acumulador"
| "variance_loop_pow add sub pow2 promedio acumulador (valor # resto) =
     (let diff = sub valor promedio
      in variance_loop_pow add sub pow2 promedio (add acumulador (pow2 diff)) resto)"

definition variance ::
  "'a \<Rightarrow> ('a \<Rightarrow> 'a \<Rightarrow> 'a) \<Rightarrow> ('a \<Rightarrow> 'a \<Rightarrow> 'a) \<Rightarrow> 'a squaring \<Rightarrow> ('a \<Rightarrow> nat \<Rightarrow> 'a)
     \<Rightarrow> 'a list \<Rightarrow> failure + 'a" where
  "variance dflt add sub sq divn contenedor =
     (case mean dflt add divn contenedor of
        Inl e \<Rightarrow> Inl e
      | Inr promedio \<Rightarrow>
          (let acumulador =
                 (case sq of
                    Integral mul \<Rightarrow> variance_loop_mul add sub mul promedio dflt contenedor
                  | NonIntegral pow2 \<Rightarrow> variance_loop_pow add sub pow2 promedio dflt contenedor);
               n = length contenedor
           in if n = 0 then Inr dflt else div_count divn acumulador n))"

subsection \<open>max (lines 113-134)\<close>

fun max_loop :: "('a \<Rightarrow> 'a \<Rightarrow> bool) \<Rightarrow> 'a \<Rightarrow> 'a list \<Rightarrow> 'a" where
  "max_loop gt maximo [] = maximo"
| "max_loop gt maximo (actual # resto) =
     max_loop gt (if gt actual maximo then actual else maximo) resto"

definition max_seq :: "'a \<Rightarrow> ('a \<Rightarrow> 'a \<Rightarrow> bool) \<Rightarrow> 'a list \<Rightarrow> 'a" where
  "max_seq dflt gt contenedor =
     (case contenedor of
        [] \<Rightarrow> dflt
      | primero # resto \<Rightarrow> max_loop gt primero resto)"

subsection \<open>transform\_reduce (lines 139-149)\<close>

fun transform_loop :: "('a \<Rightarrow> 'a \<Rightarrow> 'a) \<Rightarrow> ('a \<Rightarrow> 'a) \<Rightarrow> 'a \<Rightarrow> 'a list \<Rightarrow> 'a" where
  "transform_loop add funcion resultado [] = resultado"
| "transform_loop add funcion resultado (valor # resto) =
     transform_loop add funcion (add resultado (funcion valor)) resto"

definition transform_reduce ::
  "'a \<Rightarrow> ('a \<Rightarrow> 'a \<Rightarrow> 'a) \<Rightarrow> 'a list \<Rightarrow> ('a \<Rightarrow> 'a) \<Rightarrow> 'a" where
  "transform_reduce dflt add contenedor funcion = transform_loop add funcion dflt contenedor"

subsection \<open>The variadic forms (lines 154-196)\<close>

text \<open>
  An argument pack is the list of its arguments. \<open>(... + args)\<close> is a unary left fold:
  \<open>((a1 + a2) + a3) + ...\<close>; over an empty pack it does not compile for \<open>+\<close>.
\<close>

definition sum_variadic :: "('a \<Rightarrow> 'a \<Rightarrow> 'a) \<Rightarrow> 'a list \<Rightarrow> failure + 'a" where
  "sum_variadic add args =
     (case args of
        [] \<Rightarrow> Inl IllFormed
      | a1 # resto \<Rightarrow> Inr (foldl add a1 resto))"

text \<open>
  \<open>mean_variadic\<close> has no requires-clause: its result has the type of
  \<open>suma / sizeof...(args)\<close>, which need not be the type of the arguments.
\<close>

definition mean_variadic ::
  "('a \<Rightarrow> 'a \<Rightarrow> 'a) \<Rightarrow> ('a \<Rightarrow> nat \<Rightarrow> 'b) \<Rightarrow> 'a list \<Rightarrow> failure + 'b" where
  "mean_variadic add divn args =
     (case sum_variadic add args of
        Inl e \<Rightarrow> Inl e
      | Inr suma \<Rightarrow> div_count divn suma (length args))"

definition variance_variadic ::
  "'a \<Rightarrow> ('a \<Rightarrow> 'a \<Rightarrow> 'a) \<Rightarrow> ('a \<Rightarrow> 'a \<Rightarrow> 'a) \<Rightarrow> 'a squaring \<Rightarrow> ('a \<Rightarrow> nat \<Rightarrow> 'a)
     \<Rightarrow> 'a \<Rightarrow> 'a list \<Rightarrow> failure + 'a" where
  "variance_variadic dflt add sub sq divn first args =
     (let temp_vec = first # args
      in variance dflt add sub sq divn temp_vec)"

definition max_aux :: "('a \<Rightarrow> 'a \<Rightarrow> bool) \<Rightarrow> 'a \<Rightarrow> 'a \<Rightarrow> 'a" where
  "max_aux gt a b = (if gt a b then a else b)"

text \<open>
  \<open>((max_val = max_aux(max_val, rest)), ...)\<close> is a fold over the comma operator: one
  assignment per argument of the pack, in the order of the pack.
\<close>

fun max_variadic_loop :: "('a \<Rightarrow> 'a \<Rightarrow> bool) \<Rightarrow> 'a \<Rightarrow> 'a list \<Rightarrow> 'a" where
  "max_variadic_loop gt max_val [] = max_val"
| "max_variadic_loop gt max_val (arg # rest) =
     max_variadic_loop gt (max_aux gt max_val arg) rest"

definition max_variadic :: "('a \<Rightarrow> 'a \<Rightarrow> bool) \<Rightarrow> 'a \<Rightarrow> 'a list \<Rightarrow> 'a" where
  "max_variadic gt first rest = max_variadic_loop gt first rest"

section \<open>Element types\<close>

subsection \<open>std::size\_t\<close>

text \<open>
  \<open>std::size_t\<close> is an unsigned integer type, here of 64 bits; its arithmetic wraps
  around and its division truncates. It is \<open>Addable\<close>, \<open>Divisible\<close> (\<open>T / size_t\<close>
  has type \<open>T\<close>) and \<open>Comparable\<close>, and it is integral, so \<open>variance\<close> keeps the
  multiplying loop.
\<close>

type_synonym size_t = "64 word"

definition size_t_div :: "size_t \<Rightarrow> nat \<Rightarrow> size_t" where
  "size_t_div a n = a div word_of_nat n"

definition size_t_gt :: "size_t \<Rightarrow> size_t \<Rightarrow> bool" where
  "size_t_gt a b = (b < a)"

definition size_t_sq :: "size_t squaring" where
  "size_t_sq = Integral (\<lambda>a b. a * b)"

subsection \<open>int, unsigned int and long long\<close>

text \<open>
  \<open>int\<close> is a signed integer type, here of 32 bits. \<open>int + int\<close> is an \<open>int\<close>, so
  \<open>int\<close> is \<open>Addable\<close>. \<open>int / std::size_t\<close> is not an \<open>int\<close>: the usual arithmetic
  conversions turn the \<open>int\<close> into a \<open>std::size_t\<close> (its value modulo \<open>2^64\<close>) and the
  division is the unsigned one. (Signed overflow is undefined in C++; the wrap-around of
  \<open>+\<close> on \<open>c_int\<close> stands in for it and no statement below relies on it.)
\<close>

type_synonym c_int = "32 word"

definition int_div_size_t :: "c_int \<Rightarrow> nat \<Rightarrow> size_t" where
  "int_div_size_t a n = scast a div word_of_nat n"

definition int_gt :: "c_int \<Rightarrow> c_int \<Rightarrow> bool" where
  "int_gt a b = (sint b < sint a)"

text \<open>
  \<open>sum_variadic\<close> takes a pack \<open>Args...\<close>, each type \<open>Addable\<close> on its own; the arguments
  need not have one type. \<open>cnum\<close> is a value of one of three arithmetic types and
  \<open>cnum_add\<close> is the built-in \<open>+\<close> with the usual arithmetic conversions:
  \<open>int + unsigned\<close> is computed in \<open>unsigned\<close>, and anything with \<open>long long\<close> in
  \<open>long long\<close> (which holds every \<open>int\<close> and every \<open>unsigned\<close> value).
\<close>

datatype cnum = CInt "32 word" | CUInt "32 word" | CLongLong "64 word"

fun cnum_add :: "cnum \<Rightarrow> cnum \<Rightarrow> cnum" where
  "cnum_add (CInt a) (CInt b) = CInt (a + b)"
| "cnum_add (CInt a) (CUInt b) = CUInt (a + b)"
| "cnum_add (CUInt a) (CInt b) = CUInt (a + b)"
| "cnum_add (CUInt a) (CUInt b) = CUInt (a + b)"
| "cnum_add (CInt a) (CLongLong b) = CLongLong (scast a + b)"
| "cnum_add (CLongLong a) (CInt b) = CLongLong (a + scast b)"
| "cnum_add (CUInt a) (CLongLong b) = CLongLong (ucast a + b)"
| "cnum_add (CLongLong a) (CUInt b) = CLongLong (a + ucast b)"
| "cnum_add (CLongLong a) (CLongLong b) = CLongLong (a + b)"

subsection \<open>double and Vector3D (test.cpp, lines 7-47)\<close>

text \<open>
  A \<open>double\<close> is an IEEE 754 binary64 value: a NaN, an infinity, or a finite number
  \<open>m * 2^e\<close> with \<open>\<bar>m\<bar> < 2^53\<close> and \<open>-1074 \<le> e \<le> 971\<close>. \<open>Num r\<close> is the finite
  double of value \<open>r\<close> (the two zeros are one value here). \<open>operator>\<close> is false
  as soon as one operand is a NaN.
\<close>

datatype double = NaN | PInf | NInf | Num real

fun double_gt :: "double \<Rightarrow> double \<Rightarrow> bool" where
  "double_gt NaN _ = False"
| "double_gt _ NaN = False"
| "double_gt PInf PInf = False"
| "double_gt PInf _ = True"
| "double_gt NInf _ = False"
| "double_gt (Num a) NInf = True"
| "double_gt (Num a) PInf = False"
| "double_gt (Num a) (Num b) = (b < a)"

text \<open>
  \<open>operator+\<close> on doubles adds exactly and rounds the sum to the nearest double, a tie
  going to the even significand (the default rounding mode); from \<open>2^1024\<close> on the
  result is an infinity. Every finite double is an integer multiple of \<open>2^-1074\<close>, and
  so is the exact sum of two of them: \<open>k * 2^-1074\<close>. \<open>round_significand\<close> rounds
  \<open>\<bar>k\<bar>\<close> to 53 significant bits: it drops the \<open>d\<close> bits in excess and looks at the
  dropped part \<open>r\<close>.
\<close>

definition round_significand :: "int \<Rightarrow> int" where
  "round_significand a =
     (let d = nat (bitlen a - 53);
          q = a div 2 ^ d;
          r = a mod 2 ^ d
      in (if 2 * r < 2 ^ d then q
          else if 2 ^ d < 2 * r then q + 1
          else if even q then q else q + 1) * 2 ^ d)"

definition double_round :: "real \<Rightarrow> double" where
  "double_round r =
     (let k = \<lfloor>r * 2 ^ 1074\<rfloor>;
          m = round_significand \<bar>k\<bar>
      in if 2 ^ 2098 \<le> m then (if k < 0 then NInf else PInf)
         else Num (of_int (sgn k * m) / 2 ^ 1074))"

fun double_add :: "double \<Rightarrow> double \<Rightarrow> double" where
  "double_add NaN _ = NaN"
| "double_add _ NaN = NaN"
| "double_add PInf NInf = NaN"
| "double_add NInf PInf = NaN"
| "double_add PInf _ = PInf"
| "double_add _ PInf = PInf"
| "double_add NInf _ = NInf"
| "double_add _ NInf = NInf"
| "double_add (Num a) (Num b) = double_round (a + b)"

text \<open>
  \<open>Vector3D\<close> orders by squared magnitude. Its components are doubles; they are
  reals here, which is exact as long as the products and sums are not rounded (small
  integer components, as in test.cpp).
\<close>

record Vector3D =
  x :: real
  y :: real
  z :: real

definition Vector3D_gt :: "Vector3D \<Rightarrow> Vector3D \<Rightarrow> bool" where
  "Vector3D_gt a b =
     (x b * x b + y b * y b + z b * z b < x a * x a + y a * y a + z a * z a)"

section \<open>The specification's reading of the variadic sum\<close>

text \<open>
  Following the specification's words for \<open>sum_variadic\<close>: the right-associative fold
  \<open>a1 + (a2 + (... + an))\<close> of the addition over a non-empty argument list.
\<close>

fun right_fold :: "('a \<Rightarrow> 'a \<Rightarrow> 'a) \<Rightarrow> 'a \<Rightarrow> 'a list \<Rightarrow> 'a" where
  "right_fold add a1 [] = a1"
| "right_fold add a1 (a2 # resto) = add a1 (right_fold add a2 resto)"

text \<open>The square of a deviation, by the branch of \<open>variance\<close> that was kept.\<close>

fun square :: "'a squaring \<Rightarrow> 'a \<Rightarrow> 'a" where
  "square (Integral mul) diff = mul diff diff"
| "square (NonIntegral pow2) diff = pow2 diff"

definition squared_deviations ::
  "('a \<Rightarrow> 'a \<Rightarrow> 'a) \<Rightarrow> 'a squaring \<Rightarrow> 'a \<Rightarrow> 'a list \<Rightarrow> 'a list" where
  "squared_deviations sub sq promedio contenedor =
     map (\<lambda>valor. square sq (sub valor promedio)) contenedor"

section \<open>Conditions under which the order of the input does not matter\<close>

text \<open>
  The additions commute on a sequence when, after any of its elements have been added
  up (in any order, starting from the default value), adding two further elements of
  it in either order gives the same total. Only totals that some run of the sum loop
  over elements of this sequence can reach are concerned.
\<close>

definition additions_commute :: "'a \<Rightarrow> ('a \<Rightarrow> 'a \<Rightarrow> 'a) \<Rightarrow> 'a list \<Rightarrow> bool" where
  "additions_commute dflt add xs \<longleftrightarrow>
     (\<forall>zs a b. mset (a # b # zs) \<subseteq># mset xs \<longrightarrow>
        add (add (sum_loop add dflt zs) a) b = add (add (sum_loop add dflt zs) b) a)"

text \<open>\<open>operator>\<close> is a strict total order on the values of a set.\<close>

definition strict_total_order_on :: "('a \<Rightarrow> 'a \<Rightarrow> bool) \<Rightarrow> 'a set \<Rightarrow> bool" where
  "strict_total_order_on gt A \<longleftrightarrow>
     (\<forall>a \<in> A. \<not> gt a a)
     \<and> (\<forall>a \<in> A. \<forall>b \<in> A. \<forall>c \<in> A. gt a b \<longrightarrow> gt b c \<longrightarrow> gt a c)
     \<and> (\<forall>a \<in> A. \<forall>b \<in> A. a \<noteq> b \<longrightarrow> gt a b \<or> gt b a)"

section \<open>Basic facts about the loops\<close>

lemma sum_loop_foldl: "sum_loop add r xs = foldl add r xs"
  by (induction xs arbitrary: r) simp_all

lemma transform_loop_map: "transform_loop add f r xs = sum_loop add r (map f xs)"
  by (induction xs arbitrary: r) simp_all

lemma sum_loop_absorbed:
  assumes "\<forall>e \<in> set xs. add a e = a"
  shows "sum_loop add a xs = a"
  using assms by (induction xs) simp_all

text \<open>Both loops of \<open>variance\<close> are the sum loop over the squared deviations.\<close>

lemma variance_loop_square:
  "(case sq of
      Integral mul \<Rightarrow> variance_loop_mul add sub mul promedio acumulador contenedor
    | NonIntegral pow2 \<Rightarrow> variance_loop_pow add sub pow2 promedio acumulador contenedor)
   = sum_loop add acumulador (map (\<lambda>valor. square sq (sub valor promedio)) contenedor)"
proof (cases sq)
  case (Integral mul)
  have "variance_loop_mul add sub mul promedio acumulador contenedor
          = sum_loop add acumulador
              (map (\<lambda>valor. mul (sub valor promedio) (sub valor promedio)) contenedor)"
    by (induction contenedor arbitrary: acumulador) (simp_all add: Let_def)
  with Integral show ?thesis by simp
next
  case (NonIntegral pow2)
  have "variance_loop_pow add sub pow2 promedio acumulador contenedor
          = sum_loop add acumulador (map (\<lambda>valor. pow2 (sub valor promedio)) contenedor)"
    by (induction contenedor arbitrary: acumulador) (simp_all add: Let_def)
  with NonIntegral show ?thesis by simp
qed

lemma variance_nonempty:
  assumes "contenedor \<noteq> []"
  shows "variance dflt add sub sq divn contenedor =
     Inr (divn (sum_loop add dflt
                  (map (\<lambda>valor. square sq
                          (sub valor (divn (sum_seq dflt add contenedor) (length contenedor))))
                     contenedor))
               (length contenedor))"
proof -
  from assms have n: "length contenedor \<noteq> 0" by simp
  have m: "mean dflt add divn contenedor
             = Inr (divn (sum_seq dflt add contenedor) (length contenedor))"
    using n by (simp add: mean_def div_count_def Let_def)
  show ?thesis
    unfolding variance_def m using n
    by (simp add: Let_def div_count_def variance_loop_square)
qed

subsection \<open>The running maximum\<close>

lemma max_loop_member: "max_loop gt m xs \<in> set (m # xs)"
proof (induction xs arbitrary: m)
  case Nil
  show ?case by simp
next
  case (Cons a xs)
  have "max_loop gt (if gt a m then a else m) xs \<in> set ((if gt a m then a else m) # xs)"
    by (rule Cons.IH)
  then show ?case
    by (auto split: if_splits)
qed

lemma max_variadic_loop_member: "max_variadic_loop gt m xs \<in> set (m # xs)"
proof (induction xs arbitrary: m)
  case Nil
  show ?case by simp
next
  case (Cons a xs)
  have "max_variadic_loop gt (max_aux gt m a) xs \<in> set (max_aux gt m a # xs)"
    by (rule Cons.IH)
  then show ?case
    by (auto simp: max_aux_def split: if_splits)
qed

lemma max_loop_append:
  "max_loop gt m (xs @ ys) = max_loop gt (max_loop gt m xs) ys"
  by (induction xs arbitrary: m) simp_all

lemma max_variadic_loop_append:
  "max_variadic_loop gt m (xs @ ys) = max_variadic_loop gt (max_variadic_loop gt m xs) ys"
  by (induction xs arbitrary: m) simp_all

lemma max_loop_keeps:
  assumes "\<forall>e \<in> set post. \<not> gt e m"
  shows "max_loop gt m post = m"
  using assms by (induction post) simp_all

lemma max_variadic_loop_keeps:
  assumes "\<forall>e \<in> set post. gt m e"
  shows "max_variadic_loop gt m post = m"
  using assms by (induction post) (simp_all add: max_aux_def)

text \<open>
  The container \<open>max\<close> returns the first maximal element: the one that is strictly
  greater than everything before it and that nothing after it is strictly greater than.
\<close>

lemma max_seq_returns_first_maximal:
  assumes before: "\<forall>e \<in> set pre. gt m e"
      and after: "\<forall>e \<in> set post. \<not> gt e m"
  shows "max_seq dflt gt (pre @ m # post) = m"
proof (cases pre)
  case Nil
  with after show ?thesis
    by (simp add: max_seq_def max_loop_keeps)
next
  case (Cons p ps)
  let ?run = "max_loop gt p ps"
  have "?run \<in> set pre"
    using max_loop_member [of gt p ps] Cons by simp
  with before have "gt m ?run" by blast
  then have "max_loop gt ?run (m # post) = max_loop gt m post"
    by simp
  also have "\<dots> = m"
    using after by (rule max_loop_keeps)
  finally show ?thesis
    using Cons by (simp add: max_seq_def max_loop_append)
qed

text \<open>
  \<open>max_variadic\<close> returns the last maximal argument: \<open>max_aux(max_val, arg)\<close> keeps
  \<open>max_val\<close> only when \<open>max_val > arg\<close>, so an argument that merely ties with the
  running maximum replaces it.
\<close>

lemma max_variadic_returns_last_maximal:
  assumes args: "first # rest = pre @ m # post"
      and before: "\<forall>e \<in> set pre. \<not> gt e m"
      and after: "\<forall>e \<in> set post. gt m e"
  shows "max_variadic gt first rest = m"
proof (cases pre)
  case Nil
  with args after show ?thesis
    by (simp add: max_variadic_def max_variadic_loop_keeps)
next
  case (Cons p ps)
  with args have f: "first = p" and r: "rest = ps @ m # post"
    by simp_all
  let ?run = "max_variadic_loop gt p ps"
  have "?run \<in> set pre"
    using max_variadic_loop_member [of gt p ps] Cons by simp
  with before have "\<not> gt ?run m" by blast
  then have "max_variadic_loop gt ?run (m # post) = max_variadic_loop gt m post"
    by (simp add: max_aux_def)
  also have "\<dots> = m"
    using after by (rule max_variadic_loop_keeps)
  finally show ?thesis
    by (simp add: max_variadic_def f r max_variadic_loop_append)
qed

subsection \<open>Reordering the input\<close>

lemma sum_loop_append:
  "sum_loop add r (xs @ ys) = sum_loop add (sum_loop add r xs) ys"
  by (induction xs arbitrary: r) simp_all

text \<open>
  When the additions commute on \<open>xs\<close>, an element can be moved past any run of other
  elements, and hence any two arrangements of the same elements reach the same total.
\<close>

lemma sum_loop_move:
  assumes comm: "additions_commute dflt add xs"
      and sub: "mset (pre @ a # v1 @ v2) \<subseteq># mset xs"
  shows "sum_loop add dflt (pre @ a # v1 @ v2) = sum_loop add dflt (pre @ v1 @ a # v2)"
  using sub
proof (induction v1 arbitrary: pre)
  case Nil
  show ?case by simp
next
  case (Cons b v1)
  have "mset (a # b # pre) \<subseteq># mset (pre @ a # (b # v1) @ v2)"
    by (simp add: subset_mset.add_increasing2 flip: add_mset_add_single)
  from this Cons.prems have "mset (a # b # pre) \<subseteq># mset xs"
    by (rule subset_mset.order_trans)
  with comm
  have swap: "add (add (sum_loop add dflt pre) a) b = add (add (sum_loop add dflt pre) b) a"
    unfolding additions_commute_def by blast
  have "mset ((pre @ [b]) @ a # v1 @ v2) = mset (pre @ a # (b # v1) @ v2)"
    by simp
  with Cons.prems have "mset ((pre @ [b]) @ a # v1 @ v2) \<subseteq># mset xs"
    by (simp only:)
  then have IH: "sum_loop add dflt ((pre @ [b]) @ a # v1 @ v2)
                   = sum_loop add dflt ((pre @ [b]) @ v1 @ a # v2)"
    by (rule Cons.IH)
  have "sum_loop add dflt (pre @ a # (b # v1) @ v2)
          = sum_loop add (add (add (sum_loop add dflt pre) a) b) (v1 @ v2)"
    by (simp add: sum_loop_append)
  also have "\<dots> = sum_loop add dflt ((pre @ [b]) @ a # v1 @ v2)"
    by (simp add: swap sum_loop_append)
  also note IH
  finally show ?case by simp
qed

lemma sum_loop_permuted:
  assumes comm: "additions_commute dflt add xs"
      and sub: "mset (pre @ us) \<subseteq># mset xs"
      and perm: "mset us = mset vs"
  shows "sum_loop add dflt (pre @ us) = sum_loop add dflt (pre @ vs)"
  using sub perm
proof (induction us arbitrary: pre vs)
  case Nil
  then show ?case by simp
next
  case (Cons a us)
  from Cons.prems(2) have "a \<in> set vs"
    by (metis list.set_intros(1) mset_eq_setD)
  then obtain v1 v2 where vs: "vs = v1 @ a # v2"
    by (auto dest: split_list)
  with Cons.prems(2) have perm': "mset us = mset (v1 @ v2)"
    by simp
  have "mset ((pre @ [a]) @ us) = mset (pre @ a # us)"
    by simp
  with Cons.prems(1) have sub': "mset ((pre @ [a]) @ us) \<subseteq># mset xs"
    by (simp only:)
  have "sum_loop add dflt (pre @ a # us) = sum_loop add dflt ((pre @ [a]) @ us)"
    by simp
  also have "\<dots> = sum_loop add dflt ((pre @ [a]) @ v1 @ v2)"
    using sub' perm' by (rule Cons.IH)
  also have "\<dots> = sum_loop add dflt (pre @ a # v1 @ v2)"
    by simp
  also have "\<dots> = sum_loop add dflt (pre @ v1 @ a # v2)"
  proof (rule sum_loop_move [OF comm])
    have "mset (pre @ a # v1 @ v2) = mset (pre @ a # us)"
      using perm' by simp
    with Cons.prems(1) show "mset (pre @ a # v1 @ v2) \<subseteq># mset xs"
      by (simp only:)
  qed
  finally show ?case
    by (simp add: vs)
qed

lemma sum_seq_permuted:
  assumes "additions_commute dflt add xs" and "mset xs = mset ys"
  shows "sum_seq dflt add xs = sum_seq dflt add ys"
  using sum_loop_permuted [OF assms(1), of "[]" xs ys] assms(2)
  by (simp add: sum_seq_def)

lemma additions_commute_if_laws:
  assumes comm: "\<And>a b. add a b = add b a"
      and assoc: "\<And>a b c. add (add a b) c = add a (add b c)"
  shows "additions_commute dflt add xs"
proof -
  have "add (add r a) b = add (add r b) a" for r a b
  proof -
    have "add (add r a) b = add r (add a b)" by (rule assoc)
    also have "\<dots> = add r (add b a)" by (simp only: comm [of a b])
    also have "\<dots> = add (add r b) a" by (rule assoc [symmetric])
    finally show ?thesis .
  qed
  then show ?thesis
    by (simp add: additions_commute_def)
qed

lemma mean_permuted_local:
  assumes "additions_commute dflt add xs" and "mset xs = mset ys"
  shows "mean dflt add divn xs = mean dflt add divn ys"
proof -
  have "sum_seq dflt add xs = sum_seq dflt add ys"
    using assms by (rule sum_seq_permuted)
  moreover from assms(2) have "length xs = length ys"
    by (rule mset_eq_length)
  ultimately show ?thesis by (simp add: mean_def)
qed

lemma variance_permuted_local:
  assumes comm: "additions_commute dflt add xs"
      and comm_sq: "additions_commute dflt add
                      (squared_deviations sub sq (divn (sum_seq dflt add xs) (length xs)) xs)"
      and perm: "mset xs = mset ys"
  shows "variance dflt add sub sq divn xs = variance dflt add sub sq divn ys"
proof (cases xs)
  case Nil
  with perm have "ys = []" by simp
  with Nil show ?thesis by simp
next
  case (Cons p ps)
  then have nx: "xs \<noteq> []" by simp
  with perm have ny: "ys \<noteq> []" by auto
  let ?m = "divn (sum_seq dflt add xs) (length xs)"
  have s: "sum_seq dflt add ys = sum_seq dflt add xs"
    using comm perm by (rule sum_seq_permuted [symmetric])
  from perm have len: "length ys = length xs"
    by (rule mset_eq_length [symmetric])
  have "mset (squared_deviations sub sq ?m xs) = mset (squared_deviations sub sq ?m ys)"
    by (simp only: squared_deviations_def mset_map perm)
  with sum_loop_permuted [OF comm_sq, of "[]" "squared_deviations sub sq ?m xs"
         "squared_deviations sub sq ?m ys"]
  have loops: "sum_loop add dflt (squared_deviations sub sq ?m xs)
                 = sum_loop add dflt (squared_deviations sub sq ?m ys)"
    by simp
  show ?thesis
    unfolding variance_nonempty [OF nx] variance_nonempty [OF ny] s len
    using loops by (simp add: squared_deviations_def)
qed

lemma max_loop_undominated_on:
  assumes ord: "strict_total_order_on gt A"
      and inA: "set (m # xs) \<subseteq> A"
  shows "\<forall>e \<in> set (m # xs). \<not> gt e (max_loop gt m xs)"
  using inA
proof (induction xs arbitrary: m)
  case Nil
  with ord show ?case
    by (simp add: strict_total_order_on_def)
next
  case (Cons a xs)
  let ?m' = "if gt a m then a else m"
  let ?r = "max_loop gt ?m' xs"
  from Cons.prems have mA: "m \<in> A" and aA: "a \<in> A" and sub': "set (?m' # xs) \<subseteq> A"
    by auto
  have "?r \<in> set (?m' # xs)"
    by (rule max_loop_member)
  with sub' have rA: "?r \<in> A" by blast
  from ord have trans: "\<And>u v w. u \<in> A \<Longrightarrow> v \<in> A \<Longrightarrow> w \<in> A \<Longrightarrow> gt u v \<Longrightarrow> gt v w \<Longrightarrow> gt u w"
    and total: "\<And>u v. u \<in> A \<Longrightarrow> v \<in> A \<Longrightarrow> u \<noteq> v \<Longrightarrow> gt u v \<or> gt v u"
    unfolding strict_total_order_on_def by blast+
  have IH: "\<forall>e \<in> set (?m' # xs). \<not> gt e ?r"
    using sub' by (rule Cons.IH)
  then have m': "\<not> gt ?m' ?r" by simp
  have "\<not> gt m ?r \<and> \<not> gt a ?r"
  proof (cases "gt a m")
    case True
    with m' have na: "\<not> gt a ?r" by simp
    have "\<not> gt m ?r"
    proof
      assume "gt m ?r"
      with aA mA rA True have "gt a ?r" by (rule trans)
      with na show False ..
    qed
    with na show ?thesis by simp
  next
    case False
    with m' have nm: "\<not> gt m ?r" by simp
    have "\<not> gt a ?r"
    proof
      assume ar: "gt a ?r"
      show False
      proof (cases "a = m")
        case True
        with ar nm show False by simp
      next
        case neq: False
        with total [OF aA mA] False have "gt m a" by blast
        with mA aA rA have "gt m ?r" using ar by (rule trans)
        with nm show False ..
      qed
    qed
    with nm show ?thesis by simp
  qed
  with IH show ?case by simp
qed

lemma max_seq_permuted_local:
  assumes ord: "strict_total_order_on gt (set xs)"
      and perm: "mset xs = mset ys"
  shows "max_seq dflt gt xs = max_seq dflt gt ys"
proof (cases xs)
  case Nil
  with perm have "ys = []" by simp
  with Nil show ?thesis by simp
next
  case (Cons p ps)
  with perm obtain q qs where ys: "ys = q # qs"
    by (cases ys) auto
  from perm have sets: "set xs = set ys"
    by (rule mset_eq_setD)
  let ?r = "max_loop gt p ps" and ?s = "max_loop gt q qs"
  have r_in: "?r \<in> set xs" and s_in: "?s \<in> set ys"
    using max_loop_member [of gt p ps] max_loop_member [of gt q qs] Cons ys by simp_all
  have r_top: "\<forall>e \<in> set xs. \<not> gt e ?r"
    using max_loop_undominated_on [OF ord, of p ps] Cons by simp
  have s_top: "\<forall>e \<in> set ys. \<not> gt e ?s"
    using max_loop_undominated_on [OF ord, of q qs] ys sets by simp
  have "?r = ?s"
  proof (rule ccontr)
    assume "?r \<noteq> ?s"
    with ord r_in s_in sets have "gt ?r ?s \<or> gt ?s ?r"
      unfolding strict_total_order_on_def by blast
    with r_in s_in r_top s_top sets show False by blast
  qed
  with Cons ys show ?thesis by (simp add: max_seq_def)
qed

subsection \<open>Left and right folds\<close>

lemma sum_variadic_empty: "sum_variadic add [] = Inl IllFormed"
  by (simp add: sum_variadic_def)

lemma sum_variadic_left_fold: "sum_variadic add (a1 # resto) = Inr (foldl add a1 resto)"
  by (simp add: sum_variadic_def)

lemma foldl_assoc_shift:
  assumes assoc: "\<And>a b c. add (add a b) c = add a (add b c)"
  shows "foldl add (add a b) cs = add a (foldl add b cs)"
  by (induction cs arbitrary: b) (simp_all add: assoc)

text \<open>The two folds agree whenever the addition is associative.\<close>

lemma left_fold_is_right_fold_if_assoc:
  assumes assoc: "\<And>a b c. add (add a b) c = add a (add b c)"
  shows "sum_variadic add (a1 # resto) = Inr (right_fold add a1 resto)"
proof -
  have "foldl add a1 resto = right_fold add a1 resto"
  proof (induction resto arbitrary: a1)
    case Nil
    show ?case by simp
  next
    case (Cons a2 resto)
    have "foldl add (add a1 a2) resto = add a1 (foldl add a2 resto)"
      using assoc by (rule foldl_assoc_shift)
    with Cons.IH [of a2] show ?case by simp
  qed
  then show ?thesis by (simp add: sum_variadic_def)
qed

subsection \<open>std::size\_t elements\<close>

lemma size_t_mean_truncates:
  assumes ne: "contenedor \<noteq> []" and fits: "length contenedor < 2 ^ 64"
  shows "\<exists>promedio. mean 0 (+) size_t_div contenedor = Inr promedio
           \<and> unat promedio = unat (sum_seq 0 (+) contenedor) div length contenedor"
proof -
  from ne have n: "length contenedor \<noteq> 0" by simp
  have un: "unat (word_of_nat (length contenedor) :: size_t) = length contenedor"
    using fits by (simp add: unat_of_nat)
  have "mean 0 (+) size_t_div contenedor
          = Inr (sum_seq 0 (+) contenedor div word_of_nat (length contenedor))"
    using n by (simp add: mean_def div_count_def size_t_div_def Let_def)
  moreover have "unat (sum_seq 0 (+) contenedor div word_of_nat (length contenedor))
          = unat (sum_seq 0 (+) contenedor) div length contenedor"
    by (simp add: unat_div un)
  ultimately show ?thesis by blast
qed

lemma size_t_mean_variadic_truncates:
  assumes ne: "args \<noteq> []" and fits: "length args < 2 ^ 64"
  shows "\<exists>suma promedio. sum_variadic (+) args = Inr suma
           \<and> mean_variadic (+) size_t_div args = Inr promedio
           \<and> unat promedio = unat suma div length args"
proof -
  from ne obtain a1 resto where args: "args = a1 # resto"
    by (cases args) auto
  have un: "unat (word_of_nat (length args) :: size_t) = length args"
    using fits by (simp add: unat_of_nat)
  have s: "sum_variadic (+) args = Inr (foldl (+) a1 resto)"
    by (simp add: args sum_variadic_def)
  have "mean_variadic (+) size_t_div args
          = Inr (foldl (+) a1 resto div word_of_nat (length args))"
    unfolding mean_variadic_def s by (simp add: args div_count_def size_t_div_def)
  moreover have "unat (foldl (+) a1 resto div word_of_nat (length args))
          = unat (foldl (+) a1 resto) div length args"
    by (simp add: unat_div un)
  ultimately show ?thesis using s by blast
qed

lemma size_t_variance_from_truncated_mean:
  assumes ne: "contenedor \<noteq> []"
      and m: "mean 0 (+) size_t_div contenedor = Inr promedio"
  shows "variance 0 (+) (-) size_t_sq size_t_div contenedor
           = Inr (size_t_div
                    (foldl (+) 0
                       (map (\<lambda>valor. (valor - promedio) * (valor - promedio)) contenedor))
                    (length contenedor))"
proof -
  from ne have n: "length contenedor \<noteq> 0" by simp
  have loop: "variance_loop_mul (+) (-) (*) promedio 0 contenedor
                = foldl (+) 0 (map (\<lambda>valor. (valor - promedio) * (valor - promedio)) contenedor)"
    using variance_loop_square
            [where sq = "Integral (*)" and add = "(+)" and sub = "(-)"
               and promedio = promedio and acumulador = 0 and contenedor = contenedor]
    by (simp add: sum_loop_foldl)
  show ?thesis
    unfolding variance_def m using n
    by (simp add: Let_def div_count_def size_t_sq_def loop)
qed

subsection \<open>Constant sequences\<close>

lemma size_t_sum_replicate:
  "sum_loop (+) a (replicate n (c :: size_t)) = a + word_of_nat n * c"
  by (induction n arbitrary: a) (simp_all add: algebra_simps)

lemma size_t_mean_exact:
  assumes "0 < n" and "n < 2 ^ 64" and "n * unat (c :: size_t) < 2 ^ 64"
  shows "size_t_div (sum_seq 0 (+) (replicate n c)) n = c"
proof -
  have un: "unat (word_of_nat n :: size_t) = n"
    using assms(2) by (simp add: unat_of_nat)
  have "unat (word_of_nat n * c) = n * unat c"
    using assms(3) un by (simp add: unat_mult_lem [THEN iffD1])
  then have "unat ((word_of_nat n * c) div word_of_nat n) = unat c"
    using assms(1) un by (simp add: unat_div)
  then have "(word_of_nat n * c) div word_of_nat n = c"
    by (simp add: word_unat_eq_iff)
  then show ?thesis
    by (simp add: size_t_div_def sum_seq_def size_t_sum_replicate)
qed

text \<open>
  For \<open>std::size_t\<close> elements the variance of a constant sequence is 0 whenever
  count times value does not wrap around.
\<close>

lemma size_t_constant_variance:
  assumes "0 < n" and "n < 2 ^ 64" and "n * unat (c :: size_t) < 2 ^ 64"
  shows "variance 0 (+) (-) size_t_sq size_t_div (replicate n c) = Inr 0"
proof -
  from assms(1) have ne: "replicate n c \<noteq> []" by simp
  have exact: "size_t_div (sum_seq 0 (+) (replicate n c)) n = c"
    using assms by (rule size_t_mean_exact)
  have "sum_loop (+) 0 (map (\<lambda>valor. square size_t_sq (valor - c)) (replicate n c)) = 0"
    by (rule sum_loop_absorbed) (simp add: size_t_sq_def)
  then show ?thesis
    using variance_nonempty [OF ne, of 0 "(+)" "(-)" size_t_sq size_t_div] exact
    by (simp add: size_t_div_def)
qed

subsection \<open>Addition and comparison of doubles\<close>

lemma bitlen_eqI:
  assumes "0 < w" and "2 ^ (nat w - 1) \<le> a" and "a < 2 ^ nat w"
  shows "bitlen a = w"
  using assms bitlen_le_iff_power [of a w] bitlen_ge_iff_power [of w a] by auto

lemma round_significand_exact:
  assumes "2 ^ nat (bitlen a - 53) dvd a"
  shows "round_significand a = a"
proof -
  define d where "d = nat (bitlen a - 53)"
  from assms have r: "a mod 2 ^ d = 0"
    by (simp add: d_def)
  then have q: "a div 2 ^ d * 2 ^ d = a"
    by (simp add: mod_0_imp_dvd)
  have "(0 :: int) < 2 ^ d" by simp
  with r q show ?thesis
    unfolding round_significand_def Let_def d_def [symmetric] by simp
qed

lemma round_significand_tie:
  "round_significand ((2 ^ 53 + 1) * 2 ^ e) = 2 ^ 53 * 2 ^ e"
proof -
  let ?a = "(2 ^ 53 + 1) * 2 ^ e :: int"
  have lo: "(2 :: int) ^ (53 + e) \<le> ?a"
    by (simp add: power_add)
  have "(2 ^ 53 + 1 :: int) < 2 ^ 54" by simp
  then have "?a < 2 ^ 54 * 2 ^ e"
    by (simp only: mult_less_cancel_right) simp
  then have hi: "?a < 2 ^ (54 + e)"
    by (simp only: power_add)
  have b: "bitlen ?a = 54 + int e"
    by (rule bitlen_eqI) (use lo hi in \<open>simp_all add: nat_add_distrib\<close>)
  have d: "nat (bitlen ?a - 53) = Suc e"
    unfolding b by simp
  have split: "?a = 2 ^ Suc e * 2 ^ 52 + 2 ^ e"
    by (simp add: algebra_simps)
  have small: "(0 :: int) \<le> 2 ^ e" "(2 :: int) ^ e < 2 ^ Suc e"
    by simp_all
  have q: "?a div 2 ^ Suc e = 2 ^ 52"
    unfolding split using small by (simp only: div_mult_self4 div_pos_pos_trivial)
  have r: "?a mod 2 ^ Suc e = 2 ^ e"
    unfolding split using small by (simp only: mod_mult_self4 mod_pos_pos_trivial)
  show ?thesis
    unfolding round_significand_def Let_def d q r by simp
qed

lemma floor_scaled: "\<lfloor>of_int n * (2 :: real) ^ s\<rfloor> = n * 2 ^ s"
proof -
  have "of_int n * (2 :: real) ^ s = of_int (n * 2 ^ s)"
    by simp
  then show ?thesis
    by (simp only: floor_of_int)
qed

lemma unscale: "of_int (n * 2 ^ s) / (2 :: real) ^ s = of_int n"
  by simp

lemma double_round_exact:
  assumes fits: "2 ^ nat (bitlen (\<bar>n\<bar> * 2 ^ 1074) - 53) dvd \<bar>n\<bar> * 2 ^ 1074"
      and finite: "\<bar>n\<bar> * 2 ^ 1074 < 2 ^ 2098"
  shows "double_round (of_int n) = Num (of_int n)"
proof -
  have k: "\<lfloor>of_int n * (2 :: real) ^ 1074\<rfloor> = n * 2 ^ 1074"
    by (rule floor_scaled)
  have a: "\<bar>n * 2 ^ 1074\<bar> = \<bar>n\<bar> * 2 ^ 1074"
    by (simp only: abs_mult) simp
  have m: "round_significand (\<bar>n\<bar> * 2 ^ 1074) = \<bar>n\<bar> * 2 ^ 1074"
    using fits by (rule round_significand_exact)
  have s: "sgn (n * 2 ^ 1074) * (\<bar>n\<bar> * 2 ^ 1074) = n * 2 ^ 1074"
    by (simp only: a [symmetric] sgn_mult_abs)
  from finite have nf: "\<not> (2 ^ 2098 \<le> \<bar>n\<bar> * 2 ^ 1074)"
    by (simp only: not_le)
  show ?thesis
    unfolding double_round_def Let_def k a m s
    by (simp only: nf if_False unscale)
qed

lemma pow2_fits: "2 ^ nat (bitlen ((2 :: int) ^ w) - 53) dvd (2 :: int) ^ w"
proof -
  have "bitlen ((2 :: int) ^ w) \<le> int w + 1"
    by (simp add: bitlen_le_iff_power nat_add_distrib)
  then have "nat (bitlen ((2 :: int) ^ w) - 53) \<le> w"
    by linarith
  then show ?thesis
    by (rule le_imp_power_dvd)
qed

lemma double_round_small_int:
  assumes "\<bar>n\<bar> \<le> 2 ^ 53"
  shows "double_round (of_int n) = Num (of_int n)"
proof (rule double_round_exact)
  let ?a = "\<bar>n\<bar> * 2 ^ 1074"
  from assms have "?a \<le> 2 ^ 53 * 2 ^ 1074"
    by (simp only: mult_le_cancel_right) simp
  then have le: "?a \<le> 2 ^ 1127"
    by (simp only: power_add [symmetric]) simp
  have "(2 :: int) ^ 1127 < 2 ^ 2098"
    by (rule power_strict_increasing) simp_all
  with le show "?a < 2 ^ 2098"
    by (rule le_less_trans)
  show "2 ^ nat (bitlen ?a - 53) dvd ?a"
  proof (cases "?a = 2 ^ 1127")
    case True
    show ?thesis
      unfolding True by (rule pow2_fits)
  next
    case False
    with le have "?a < 2 ^ nat 1127"
      by simp
    then have "bitlen ?a \<le> 1127"
      by (simp only: bitlen_le_iff_power) simp
    then have "nat (bitlen ?a - 53) \<le> 1074"
      by simp
    then have "(2 :: int) ^ nat (bitlen ?a - 53) dvd 2 ^ 1074"
      by (rule le_imp_power_dvd)
    then show ?thesis
      by (rule dvd_mult)
  qed
qed

lemma double_round_tie: "double_round (2 ^ 53 + 1) = Num (2 ^ 53)"
proof -
  have r: "(2 ^ 53 + 1 :: real) = of_int (2 ^ 53 + 1)"
    by simp
  have k: "\<lfloor>of_int (2 ^ 53 + 1) * (2 :: real) ^ 1074\<rfloor> = (2 ^ 53 + 1) * 2 ^ 1074"
    by (rule floor_scaled)
  have pos: "(0 :: int) < (2 ^ 53 + 1) * 2 ^ 1074"
    by (rule mult_pos_pos) simp_all
  then have a: "\<bar>(2 ^ 53 + 1) * 2 ^ 1074 :: int\<bar> = (2 ^ 53 + 1) * 2 ^ 1074"
    by (simp only: abs_of_pos)
  have m: "round_significand ((2 ^ 53 + 1) * 2 ^ 1074) = 2 ^ 53 * 2 ^ 1074"
    by (rule round_significand_tie)
  have "(2 :: int) ^ (53 + 1074) < 2 ^ 2098"
    by (rule power_strict_increasing) simp_all
  then have nf: "\<not> ((2 :: int) ^ 2098 \<le> 2 ^ 53 * 2 ^ 1074)"
    by (simp only: power_add not_le)
  from pos have s: "sgn ((2 ^ 53 + 1) * 2 ^ 1074 :: int) = 1"
    by (simp only: sgn_1_pos)
  have v: "(of_int (2 ^ 53) :: real) = 2 ^ 53"
    by simp
  show ?thesis
    unfolding r double_round_def Let_def k a m s
    by (simp only: nf if_False mult_1 unscale v)
qed

text \<open>Sums of integers are exact up to \<open>2^53\<close> in magnitude.\<close>

lemma double_add_small_int:
  assumes "\<bar>i + j\<bar> \<le> 2 ^ 53"
  shows "double_add (Num (of_int i)) (Num (of_int j)) = Num (of_int (i + j))"
  using double_round_small_int [OF assms] by simp

text \<open>One past \<open>2^53\<close> the sum is rounded: \<open>2^53 + 1\<close> lies halfway between two doubles.\<close>

lemma double_add_rounds: "double_add (Num (2 ^ 53)) (Num 1) = Num (2 ^ 53)"
  by (simp only: double_add.simps double_round_tie)

lemma sum_loop_small_ints:
  assumes elems: "\<forall>e \<in> set zs. \<exists>i. e = Num (of_int i) \<and> 0 \<le> i \<and> i \<le> B"
      and s0: "0 \<le> s"
      and bound: "s + B * int (length zs) \<le> 2 ^ 53"
  shows "\<exists>t. sum_loop double_add (Num (of_int s)) zs = Num (of_int t)
              \<and> s \<le> t \<and> t \<le> s + B * int (length zs)"
  using elems s0 bound
proof (induction zs arbitrary: s)
  case Nil
  then show ?case by simp
next
  case (Cons e zs)
  from Cons.prems(1) obtain i where e: "e = Num (of_int i)" and i: "0 \<le> i" "i \<le> B"
    by auto
  from i have B: "0 \<le> B" by simp
  then have more: "0 \<le> B * int (length zs)"
    by simp
  have len: "B * int (length (e # zs)) = B + B * int (length zs)"
    by (simp add: algebra_simps)
  from Cons.prems(2,3) i more have small: "\<bar>s + i\<bar> \<le> 2 ^ 53"
    unfolding len by linarith
  have step: "double_add (Num (of_int s)) e = Num (of_int (s + i))"
    unfolding e using small by (rule double_add_small_int)
  from Cons.prems(2) i have s': "0 \<le> s + i" by simp
  from Cons.prems(3) i have bound': "(s + i) + B * int (length zs) \<le> 2 ^ 53"
    unfolding len by linarith
  from Cons.prems(1) have elems': "\<forall>e \<in> set zs. \<exists>i. e = Num (of_int i) \<and> 0 \<le> i \<and> i \<le> B"
    by simp
  from Cons.IH [OF elems' s' bound'] obtain t
    where t: "sum_loop double_add (Num (of_int (s + i))) zs = Num (of_int t)"
      and tb: "s + i \<le> t" "t \<le> (s + i) + B * int (length zs)"
    by blast
  from tb i have "s \<le> t \<and> t \<le> s + B * int (length (e # zs))"
    unfolding len by linarith
  with t step show ?case
    by (simp only: sum_loop.simps) blast
qed

text \<open>
  On a sequence of doubles that are non-negative integers whose total stays below
  \<open>2^53\<close>, no partial sum is rounded and the additions commute.
\<close>

lemma additions_commute_small_ints:
  assumes elems: "\<forall>e \<in> set xs. \<exists>i. e = Num (of_int i) \<and> 0 \<le> i \<and> i \<le> B"
      and bound: "B * int (length xs) \<le> 2 ^ 53"
  shows "additions_commute (Num 0) double_add xs"
  unfolding additions_commute_def
proof (intro allI impI)
  fix zs a b
  assume sub: "mset (a # b # zs) \<subseteq># mset xs"
  then have "set (a # b # zs) \<subseteq> set xs"
    by (metis set_mset_mono set_mset_mset)
  with elems have small: "\<forall>e \<in> set (a # b # zs). \<exists>i. e = Num (of_int i) \<and> 0 \<le> i \<and> i \<le> B"
    by blast
  from sub have "length (a # b # zs) \<le> length xs"
    by (metis size_mset size_mset_mono)
  then have len: "int (length zs) + 2 \<le> int (length xs)"
    by simp
  from small obtain i j where a: "a = Num (of_int i)" and i: "0 \<le> i" "i \<le> B"
    and b: "b = Num (of_int j)" and j: "0 \<le> j" "j \<le> B"
    by auto
  from i have B: "0 \<le> B" by simp
  with len have "B * (int (length zs) + 2) \<le> B * int (length xs)"
    by (rule mult_left_mono)
  with bound have total: "B * int (length zs) + 2 * B \<le> 2 ^ 53"
    by (simp add: algebra_simps)
  from B have "0 \<le> 2 * B" by simp
  with total have "0 + B * int (length zs) \<le> 2 ^ 53"
    by linarith
  with small obtain t
    where t: "sum_loop double_add (Num (of_int 0)) zs = Num (of_int t)"
      and tb: "0 \<le> t" "t \<le> 0 + B * int (length zs)"
    using sum_loop_small_ints [of zs B 0] by auto
  have z: "Num (of_int 0) = Num 0" by simp
  from tb i j total have r1: "\<bar>t + i\<bar> \<le> 2 ^ 53" "\<bar>(t + i) + j\<bar> \<le> 2 ^ 53"
    and r2: "\<bar>t + j\<bar> \<le> 2 ^ 53" "\<bar>(t + j) + i\<bar> \<le> 2 ^ 53"
    by linarith+
  have "double_add (double_add (Num (of_int t)) a) b = Num (of_int ((t + i) + j))"
    unfolding a b by (simp only: double_add_small_int r1)
  moreover have "double_add (double_add (Num (of_int t)) b) a = Num (of_int ((t + j) + i))"
    unfolding a b by (simp only: double_add_small_int r2)
  moreover have "(t + i) + j = (t + j) + i"
    by simp
  ultimately show "double_add (double_add (sum_loop double_add (Num 0) zs) a) b
                     = double_add (double_add (sum_loop double_add (Num 0) zs) b) a"
    using t unfolding z by (simp only:)
qed

text \<open>On doubles \<open>operator>\<close> is a strict total order as long as no NaN is involved.\<close>

lemma double_gt_order:
  assumes "NaN \<notin> A"
  shows "strict_total_order_on double_gt A"
  unfolding strict_total_order_on_def
proof (intro conjI ballI impI)
  fix a
  show "\<not> double_gt a a"
    by (cases a) simp_all
next
  fix a b c
  assume ab: "double_gt a b" and bc: "double_gt b c"
  then show "double_gt a c"
    by (cases a; cases b; cases c) simp_all
next
  fix a b :: double
  assume "a \<in> A" and "b \<in> A" and "a \<noteq> b"
  with assms have "a \<noteq> NaN" and "b \<noteq> NaN"
    by auto
  with \<open>a \<noteq> b\<close> show "double_gt a b \<or> double_gt b a"
    by (cases a; cases b) auto
qed

lemma double_max_permuted:
  assumes "NaN \<notin> set xs" and "mset xs = mset ys"
  shows "max_seq dflt double_gt xs = max_seq dflt double_gt ys"
proof -
  from assms(1) have "strict_total_order_on double_gt (set xs)"
    by (rule double_gt_order)
  then show ?thesis
    using assms(2) by (rule max_seq_permuted_local)
qed

text \<open>
  The sequence of the specification's examples, \<open>[1.0, 2.0, 3.0, 4.0, 5.0]\<close>: in
  whatever order it is stored, its sum is 15 and its maximum is 5.
\<close>

lemma double_one_to_five:
  assumes "mset ys = mset [Num 1, Num 2, Num 3, Num 4, Num 5]"
  shows "sum_seq (Num 0) double_add ys = Num 15 \<and> max_seq (Num 0) double_gt ys = Num 5"
proof -
  let ?xs = "[Num 1, Num 2, Num 3, Num 4, Num 5]"
  have of_ints: "Num 1 = Num (of_int 1)" "Num 2 = Num (of_int 2)" "Num 3 = Num (of_int 3)"
    "Num 4 = Num (of_int 4)" "Num 5 = Num (of_int 5)"
    by simp_all
  have "\<forall>e \<in> set ?xs. \<exists>i. e = Num (of_int i) \<and> 0 \<le> i \<and> i \<le> 5"
    unfolding of_ints by auto
  then have comm: "additions_commute (Num 0) double_add ?xs"
    by (rule additions_commute_small_ints) simp
  from assms have perm: "mset ?xs = mset ys" by simp
  have "sum_seq (Num 0) double_add ?xs = sum_seq (Num 0) double_add ys"
    using comm perm by (rule sum_seq_permuted)
  moreover have "sum_seq (Num 0) double_add ?xs = Num 15"
  proof -
    have steps: "double_add (Num 0) (Num 1) = Num 1" "double_add (Num 1) (Num 2) = Num 3"
      "double_add (Num 3) (Num 3) = Num 6" "double_add (Num 6) (Num 4) = Num 10"
      "double_add (Num 10) (Num 5) = Num 15"
      using double_add_small_int [of 0 1] double_add_small_int [of 1 2]
        double_add_small_int [of 3 3] double_add_small_int [of 6 4]
        double_add_small_int [of 10 5]
      by simp_all
    show ?thesis
      unfolding sum_seq_def by (simp only: sum_loop.simps steps)
  qed
  moreover have "max_seq (Num 0) double_gt ?xs = max_seq (Num 0) double_gt ys"
    by (rule double_max_permuted [OF _ perm]) simp
  moreover have "max_seq (Num 0) double_gt ?xs = Num 5"
    by (simp add: max_seq_def)
  ultimately show ?thesis by simp
qed

subsection \<open>The integer calls of test.cpp and of the specification's examples\<close>

lemma int_examples:
  "sum_variadic (+) [1, 2, 3, 4 :: c_int] = Inr 10"
  "max_variadic int_gt 10 [5, 20, 1] = 20"
  "max_seq 0 int_gt [3, 1, 4, 1, 5, 9, 2, 6] = 9"
  "max_seq 0 int_gt [- 7, - 2, - 9] = - 2"
  by (simp_all add: sum_variadic_def max_variadic_def max_aux_def max_seq_def int_gt_def)

section \<open>The claims\<close>

text \<open>
  C1. Ties are to go to the earliest maximal value in both \<open>max\<close> and
  \<open>max_variadic\<close>. The two vectors below have the same squared magnitude, so neither is
  strictly greater than the other. The container \<open>max\<close> returns the first of them;
  \<open>max_variadic\<close> returns the second one, because \<open>max_aux(max_val, arg)\<close> yields
  \<open>arg\<close> whenever \<open>max_val > arg\<close> is false.
\<close>

theorem max_variadic_tie_returns_later:
  "\<not> Vector3D_gt \<lparr>x = 1, y = 0, z = 0\<rparr> \<lparr>x = 0, y = 1, z = 0\<rparr>
   \<and> \<not> Vector3D_gt \<lparr>x = 0, y = 1, z = 0\<rparr> \<lparr>x = 1, y = 0, z = 0\<rparr>
   \<and> max_seq \<lparr>x = 0, y = 0, z = 0\<rparr> Vector3D_gt
         [\<lparr>x = 1, y = 0, z = 0\<rparr>, \<lparr>x = 0, y = 1, z = 0\<rparr>]
       = \<lparr>x = 1, y = 0, z = 0\<rparr>
   \<and> max_variadic Vector3D_gt \<lparr>x = 1, y = 0, z = 0\<rparr> [\<lparr>x = 0, y = 1, z = 0\<rparr>]
       = \<lparr>x = 0, y = 1, z = 0\<rparr>"
proof -
  have tie: "\<not> Vector3D_gt \<lparr>x = 1, y = 0, z = 0\<rparr> \<lparr>x = 0, y = 1, z = 0\<rparr>"
    and tie': "\<not> Vector3D_gt \<lparr>x = 0, y = 1, z = 0\<rparr> \<lparr>x = 1, y = 0, z = 0\<rparr>"
    by (simp_all add: Vector3D_gt_def)
  from tie' have "max_seq \<lparr>x = 0, y = 0, z = 0\<rparr> Vector3D_gt
         [\<lparr>x = 1, y = 0, z = 0\<rparr>, \<lparr>x = 0, y = 1, z = 0\<rparr>] = \<lparr>x = 1, y = 0, z = 0\<rparr>"
    by (simp add: max_seq_def)
  moreover from tie
  have "max_variadic Vector3D_gt \<lparr>x = 1, y = 0, z = 0\<rparr> [\<lparr>x = 0, y = 1, z = 0\<rparr>]
          = \<lparr>x = 0, y = 1, z = 0\<rparr>"
    by (simp add: max_variadic_def max_aux_def)
  ultimately show ?thesis
    using tie tie' by blast
qed

text \<open>
  C2. \<open>sum_variadic\<close> is to be the right-associative fold \<open>a1 + (a2 + (... + an))\<close>.
  The code folds from the left. On the arguments \<open>-1\<close>, \<open>0u\<close>, \<open>0LL\<close> the left fold
  first adds \<open>-1 + 0u\<close> in \<open>unsigned\<close>, which is 4294967295, and returns that as a
  \<open>long long\<close>; the right fold of the specification is \<open>-1\<close>.
\<close>

theorem sum_variadic_folds_from_the_left:
  "sum_variadic cnum_add [CInt (- 1), CUInt 0, CLongLong 0] = Inr (CLongLong 4294967295)
   \<and> right_fold cnum_add (CInt (- 1)) [CUInt 0, CLongLong 0] = CLongLong (- 1)
   \<and> CLongLong 4294967295 \<noteq> CLongLong (- 1)
   \<and> sum_variadic cnum_add [] = Inl IllFormed"
proof -
  have left: "sum_variadic cnum_add [CInt (- 1), CUInt 0, CLongLong 0]
                = Inr (CLongLong 4294967295)"
    by (simp add: sum_variadic_def unsigned_minus_1_eq_mask mask_eq_exp_minus_1)
  have right: "right_fold cnum_add (CInt (- 1)) [CUInt 0, CLongLong 0] = CLongLong (- 1)"
    by simp
  from left right show ?thesis
    by (simp add: sum_variadic_empty)
qed

text \<open>
  C3. On an empty sequence \<open>sum\<close>, \<open>mean\<close>, \<open>variance\<close> and \<open>max\<close> each return the
  default-constructed value of the element type, whatever the element type's operators
  are; \<open>mean\<close> and \<open>variance\<close> return it as a value, that is without having divided by a
  zero count.
\<close>

theorem empty_sequence_returns_default:
  "sum_seq dflt add [] = dflt
   \<and> mean dflt add divn [] = Inr dflt
   \<and> variance dflt add sub sq divn [] = Inr dflt
   \<and> max_seq dflt gt [] = dflt"
proof -
  have s: "sum_seq dflt add [] = dflt"
    by (simp add: sum_seq_def)
  have m: "mean dflt add divn [] = Inr dflt"
    by (simp add: mean_def)
  have v: "variance dflt add sub sq divn [] = Inr dflt"
    unfolding variance_def m by (simp add: Let_def)
  have mx: "max_seq dflt gt [] = dflt"
    by (simp add: max_seq_def)
  from s m v mx show ?thesis by blast
qed

text \<open>
  C4. On a non-empty sequence \<open>mean\<close> returns the sum of the sequence divided, with the
  element type's own division, by the number of elements.
\<close>

theorem mean_is_sum_div_count:
  assumes "contenedor \<noteq> []"
  shows "mean dflt add divn contenedor
           = Inr (divn (sum_seq dflt add contenedor) (length contenedor))"
proof -
  from assms have "length contenedor \<noteq> 0"
    by simp
  then show ?thesis
    by (simp add: mean_def div_count_def Let_def)
qed

theorem mean_is_sum_div_count_witness:
  "[6, 7, 11 :: size_t] \<noteq> []
   \<and> sum_seq 0 (+) [6, 7, 11 :: size_t] = 24
   \<and> mean 0 (+) size_t_div [6, 7, 11 :: size_t] = Inr 8"
proof -
  have ne: "[6, 7, 11 :: size_t] \<noteq> []"
    by simp
  have s: "sum_seq 0 (+) [6, 7, 11 :: size_t] = 24"
    by (simp add: sum_seq_def)
  have d: "size_t_div 24 (length [6, 7, 11 :: size_t]) = 8"
    by (simp add: size_t_div_def)
  from mean_is_sum_div_count [OF ne, of 0 "(+)" size_t_div] s d ne
  show ?thesis by simp
qed

text \<open>
  C5. \<open>variance_variadic(first, rest...)\<close> returns what the container \<open>variance\<close> returns
  on the sequence \<open>[first, rest...]\<close>, whatever the element type's operators are. That
  sequence is never empty, so the value is the two-pass one: the squared deviations from
  the mean of all the arguments, summed and divided by the number of arguments.
\<close>

theorem variance_variadic_delegates:
  "variance_variadic dflt add sub sq divn first rest
     = variance dflt add sub sq divn (first # rest)
   \<and> variance_variadic dflt add sub sq divn first rest
     = Inr (divn (sum_loop add dflt
                    (map (\<lambda>valor. square sq
                            (sub valor (divn (sum_seq dflt add (first # rest))
                                             (Suc (length rest)))))
                       (first # rest)))
                 (Suc (length rest)))"
proof -
  have delegate: "variance_variadic dflt add sub sq divn first rest
                    = variance dflt add sub sq divn (first # rest)"
    by (simp add: variance_variadic_def)
  have "first # rest \<noteq> []"
    by simp
  from variance_nonempty [OF this, of dflt add sub sq divn] delegate
  show ?thesis by simp
qed

text \<open>
  C6, as stated: a permutation of a sequence of a numeric type never changes the result
  of \<open>sum\<close>, \<open>mean\<close>, \<open>variance\<close> or \<open>max\<close>. It fails on doubles in two ways. For
  \<open>max\<close>: no comparison with a NaN is true, so a NaN in front stays the running maximum
  and a NaN further back is never taken. For \<open>sum\<close>: \<open>2^53 + 1\<close> is rounded to \<open>2^53\<close>,
  so \<open>(2^53 + 1) - 2^53\<close> is 0 while \<open>(2^53 - 2^53) + 1\<close> is 1.
\<close>

theorem max_and_sum_order_dependent_on_double:
  "mset [NaN, Num 1] = mset [Num 1, NaN]
   \<and> max_seq (Num 0) double_gt [NaN, Num 1] = NaN
   \<and> max_seq (Num 0) double_gt [Num 1, NaN] = Num 1
   \<and> max_seq (Num 0) double_gt [NaN, Num 1] \<noteq> max_seq (Num 0) double_gt [Num 1, NaN]
   \<and> mset [Num (2 ^ 53), Num 1, Num (- (2 ^ 53))] = mset [Num (2 ^ 53), Num (- (2 ^ 53)), Num 1]
   \<and> sum_seq (Num 0) double_add [Num (2 ^ 53), Num 1, Num (- (2 ^ 53))] = Num 0
   \<and> sum_seq (Num 0) double_add [Num (2 ^ 53), Num (- (2 ^ 53)), Num 1] = Num 1
   \<and> sum_seq (Num 0) double_add [Num (2 ^ 53), Num 1, Num (- (2 ^ 53))]
       \<noteq> sum_seq (Num 0) double_add [Num (2 ^ 53), Num (- (2 ^ 53)), Num 1]"
proof -
  have mx: "max_seq (Num 0) double_gt [NaN, Num 1] = NaN"
    "max_seq (Num 0) double_gt [Num 1, NaN] = Num 1"
    by (simp_all add: max_seq_def)
  have first: "double_add (Num 0) (Num (2 ^ 53)) = Num (2 ^ 53)"
    using double_add_small_int [of 0 "2 ^ 53"] by simp
  have rounded: "double_add (Num (2 ^ 53)) (Num 1) = Num (2 ^ 53)"
    by (rule double_add_rounds)
  have cancel: "double_add (Num (2 ^ 53)) (Num (- (2 ^ 53))) = Num 0"
    using double_add_small_int [of "2 ^ 53" "- (2 ^ 53)"] by simp
  have last: "double_add (Num 0) (Num 1) = Num 1"
    using double_add_small_int [of 0 1] by simp
  have s1: "sum_seq (Num 0) double_add [Num (2 ^ 53), Num 1, Num (- (2 ^ 53))] = Num 0"
    unfolding sum_seq_def by (simp only: sum_loop.simps first rounded cancel)
  have s2: "sum_seq (Num 0) double_add [Num (2 ^ 53), Num (- (2 ^ 53)), Num 1] = Num 1"
    unfolding sum_seq_def by (simp only: sum_loop.simps first cancel last)
  have perm: "mset [Num (2 ^ 53), Num 1, Num (- (2 ^ 53))]
                = mset [Num (2 ^ 53), Num (- (2 ^ 53)), Num 1]"
    by simp
  from mx s1 s2 perm show ?thesis
    by simp
qed

text \<open>
  C6, amended. Let \<open>ys\<close> be a permutation of \<open>xs\<close>. Then \<open>sum\<close> and \<open>mean\<close> return the
  same on both whenever the additions commute on \<open>xs\<close>; \<open>variance\<close> does whenever the
  additions commute on \<open>xs\<close> and on the squared deviations of \<open>xs\<close> from its mean; and
  \<open>max\<close> does whenever \<open>operator>\<close> is a strict total order on the elements of \<open>xs\<close>.
  Each result has its own condition, and each condition is about the values of the
  sequence only. Unsigned integers meet all of them (lemma \<open>additions_commute_if_laws\<close>);
  doubles meet the one for \<open>max\<close> when the sequence holds no NaN (lemma
  \<open>double_max_permuted\<close>) and the one for \<open>sum\<close> when no partial sum is rounded (lemmas
  \<open>additions_commute_small_ints\<close>, \<open>double_one_to_five\<close>).
\<close>

theorem permutation_invariance:
  assumes perm: "mset xs = mset ys"
  shows "(additions_commute dflt add xs \<longrightarrow>
            sum_seq dflt add xs = sum_seq dflt add ys
            \<and> mean dflt add divn xs = mean dflt add divn ys)
         \<and> (additions_commute dflt add xs
              \<and> additions_commute dflt add
                  (squared_deviations sub sq (divn (sum_seq dflt add xs) (length xs)) xs) \<longrightarrow>
            variance dflt add sub sq divn xs = variance dflt add sub sq divn ys)
         \<and> (strict_total_order_on gt (set xs) \<longrightarrow>
            max_seq dflt gt xs = max_seq dflt gt ys)"
proof (intro conjI impI)
  assume "additions_commute dflt add xs"
  then show "sum_seq dflt add xs = sum_seq dflt add ys"
    using perm by (rule sum_seq_permuted)
next
  assume "additions_commute dflt add xs"
  then show "mean dflt add divn xs = mean dflt add divn ys"
    using perm by (rule mean_permuted_local)
next
  assume "additions_commute dflt add xs
          \<and> additions_commute dflt add
              (squared_deviations sub sq (divn (sum_seq dflt add xs) (length xs)) xs)"
  then show "variance dflt add sub sq divn xs = variance dflt add sub sq divn ys"
    using perm by (blast intro: variance_permuted_local)
next
  assume "strict_total_order_on gt (set xs)"
  then show "max_seq dflt gt xs = max_seq dflt gt ys"
    using perm by (rule max_seq_permuted_local)
qed

theorem permutation_invariance_witness:
  "mset [3, 1, 4, 1, 5 :: size_t] = mset [5, 4, 1, 3, 1]
   \<and> additions_commute 0 (+) [3, 1, 4, 1, 5 :: size_t]
   \<and> additions_commute 0 (+)
       (squared_deviations (-) size_t_sq
          (size_t_div (sum_seq 0 (+) [3, 1, 4, 1, 5]) (length [3, 1, 4, 1, 5 :: size_t]))
          [3, 1, 4, 1, 5])
   \<and> strict_total_order_on size_t_gt (set [3, 1, 4, 1, 5])
   \<and> sum_seq 0 (+) [3, 1, 4, 1, 5 :: size_t] = sum_seq 0 (+) [5, 4, 1, 3, 1]
   \<and> mean 0 (+) size_t_div [3, 1, 4, 1, 5 :: size_t] = mean 0 (+) size_t_div [5, 4, 1, 3, 1]
   \<and> variance 0 (+) (-) size_t_sq size_t_div [3, 1, 4, 1, 5 :: size_t]
       = variance 0 (+) (-) size_t_sq size_t_div [5, 4, 1, 3, 1]
   \<and> max_seq 0 size_t_gt [3, 1, 4, 1, 5 :: size_t] = max_seq 0 size_t_gt [5, 4, 1, 3, 1]
   \<and> sum_seq 0 (+) [5, 4, 1, 3, 1 :: size_t] = 14
   \<and> mean 0 (+) size_t_div [5, 4, 1, 3, 1 :: size_t] = Inr 2
   \<and> variance 0 (+) (-) size_t_sq size_t_div [5, 4, 1, 3, 1 :: size_t] = Inr 3
   \<and> max_seq 0 size_t_gt [5, 4, 1, 3, 1 :: size_t] = 5"
proof -
  have perm: "mset [3, 1, 4, 1, 5 :: size_t] = mset [5, 4, 1, 3, 1]"
    by simp
  have comm: "additions_commute 0 (+) zs" for zs :: "size_t list"
    by (rule additions_commute_if_laws) (simp_all add: add.commute add.assoc)
  have ord: "strict_total_order_on size_t_gt A" for A
    by (auto simp: strict_total_order_on_def size_t_gt_def)
  have s: "sum_seq 0 (+) [5, 4, 1, 3, 1 :: size_t] = 14"
    by (simp add: sum_seq_def)
  have m: "mean 0 (+) size_t_div [5, 4, 1, 3, 1 :: size_t] = Inr 2"
    by (simp add: mean_def sum_seq_def size_t_div_def div_count_def)
  have v: "variance 0 (+) (-) size_t_sq size_t_div [5, 4, 1, 3, 1 :: size_t] = Inr 3"
    by (simp add: variance_def mean_def sum_seq_def size_t_sq_def size_t_div_def
        div_count_def Let_def)
  have mx: "max_seq 0 size_t_gt [5, 4, 1, 3, 1 :: size_t] = 5"
    by (simp add: max_seq_def size_t_gt_def)
  from permutation_invariance
         [OF perm, of 0 "(+)" size_t_div "(-)" size_t_sq size_t_gt]
    comm ord
  have "sum_seq 0 (+) [3, 1, 4, 1, 5 :: size_t] = sum_seq 0 (+) [5, 4, 1, 3, 1]
        \<and> mean 0 (+) size_t_div [3, 1, 4, 1, 5 :: size_t] = mean 0 (+) size_t_div [5, 4, 1, 3, 1]
        \<and> variance 0 (+) (-) size_t_sq size_t_div [3, 1, 4, 1, 5 :: size_t]
            = variance 0 (+) (-) size_t_sq size_t_div [5, 4, 1, 3, 1]
        \<and> max_seq 0 size_t_gt [3, 1, 4, 1, 5 :: size_t] = max_seq 0 size_t_gt [5, 4, 1, 3, 1]"
    by blast
  with perm comm ord s m v mx show ?thesis
    by (simp only: simp_thms)
qed

text \<open>
  C7, as stated: the variance of a non-empty constant sequence is the default value,
  for every element type. It fails for \<open>std::size_t\<close> elements when the sum wraps
  around: three times \<open>2^63\<close> is \<open>2^63\<close> modulo \<open>2^64\<close>, the mean is a third of that,
  and the deviations from it are not zero.
\<close>

theorem variance_of_constant_wraps:
  "sum_seq 0 (+) [2 ^ 63, 2 ^ 63, 2 ^ 63 :: size_t] = 2 ^ 63
   \<and> mean 0 (+) size_t_div [2 ^ 63, 2 ^ 63, 2 ^ 63] = Inr 3074457345618258602
   \<and> variance 0 (+) (-) size_t_sq size_t_div [2 ^ 63, 2 ^ 63, 2 ^ 63]
       = Inr 4099276460824344804
   \<and> variance 0 (+) (-) size_t_sq size_t_div [2 ^ 63, 2 ^ 63, 2 ^ 63] \<noteq> Inr 0"
proof -
  have s: "sum_seq 0 (+) [2 ^ 63, 2 ^ 63, 2 ^ 63 :: size_t] = 2 ^ 63"
    by (simp add: sum_seq_def)
  have m: "mean 0 (+) size_t_div [2 ^ 63, 2 ^ 63, 2 ^ 63] = Inr 3074457345618258602"
    by (simp add: mean_def sum_seq_def size_t_div_def div_count_def)
  have v: "variance 0 (+) (-) size_t_sq size_t_div [2 ^ 63, 2 ^ 63, 2 ^ 63]
             = Inr 4099276460824344804"
    unfolding variance_def m
    by (simp add: size_t_sq_def size_t_div_def div_count_def Let_def)
  from s m v show ?thesis by simp
qed

text \<open>
  C7, amended. Let the sequence consist of \<open>n > 0\<close> copies of \<open>c\<close>, and let the element
  type's arithmetic be exact on it: the sum divided by \<open>n\<close> is \<open>c\<close> again, \<open>c - c\<close> is
  the default value, and the default value squared, added to itself or divided by \<open>n\<close>
  is the default value. Then \<open>variance\<close> returns the default value. (For
  \<open>std::size_t\<close> this is the case whenever \<open>n * c < 2^64\<close>: lemma
  \<open>size_t_constant_variance\<close>.)
\<close>

theorem variance_of_constant_sequence:
  assumes n: "0 < n"
      and exact: "divn (sum_seq dflt add (replicate n c)) n = c"
      and cancel: "sub c c = dflt"
      and sq0: "square sq dflt = dflt"
      and add0: "add dflt dflt = dflt"
      and div0: "divn dflt n = dflt"
  shows "variance dflt add sub sq divn (replicate n c) = Inr dflt"
proof -
  from n have ne: "replicate n c \<noteq> []"
    by simp
  have deviation: "square sq (sub c c) = dflt"
    by (simp add: cancel sq0)
  have "sum_loop add dflt (map (\<lambda>valor. square sq (sub valor c)) (replicate n c)) = dflt"
    by (rule sum_loop_absorbed) (simp add: deviation add0)
  then show ?thesis
    using variance_nonempty [OF ne, of dflt add sub sq divn] exact div0 by simp
qed

theorem variance_of_constant_sequence_witness:
  "(0 :: nat) < 3
   \<and> size_t_div (sum_seq 0 (+) (replicate 3 7)) 3 = 7
   \<and> (7 :: size_t) - 7 = 0
   \<and> square size_t_sq 0 = 0
   \<and> (0 :: size_t) + 0 = 0
   \<and> size_t_div 0 3 = 0
   \<and> variance 0 (+) (-) size_t_sq size_t_div (replicate 3 7) = Inr 0"
proof -
  have n: "(0 :: nat) < 3" by simp
  have r: "replicate 3 (7 :: size_t) = [7, 7, 7]"
    by (simp add: numeral_3_eq_3)
  have exact: "size_t_div (sum_seq 0 (+) (replicate 3 7)) 3 = 7"
    unfolding r by (simp add: size_t_div_def sum_seq_def)
  have cancel: "(7 :: size_t) - 7 = 0" by simp
  have sq0: "square size_t_sq 0 = 0" by (simp add: size_t_sq_def)
  have add0: "(0 :: size_t) + 0 = 0" by simp
  have div0: "size_t_div 0 3 = 0" by (simp add: size_t_div_def)
  from variance_of_constant_sequence
         [where n = 3 and divn = size_t_div and dflt = 0 and add = "(+)" and c = 7
            and sub = "(-)" and sq = size_t_sq,
          OF n exact cancel sq0 add0 div0]
    n exact cancel sq0 add0 div0
  show ?thesis by simp
qed

text \<open>
  C8. \<open>transform_reduce(seq, f)\<close> is \<open>sum\<close> applied to the sequence of the \<open>f\<close>-images
  of the elements, in iteration order: the left fold of the addition, seeded with the
  default value, over the mapped sequence.
\<close>

theorem transform_reduce_is_sum_of_map:
  "transform_reduce dflt add contenedor funcion = sum_seq dflt add (map funcion contenedor)
   \<and> transform_reduce dflt add contenedor funcion = foldl add dflt (map funcion contenedor)"
proof -
  have "transform_reduce dflt add contenedor funcion
          = sum_loop add dflt (map funcion contenedor)"
    unfolding transform_reduce_def by (rule transform_loop_map)
  then show ?thesis
    by (simp add: sum_seq_def sum_loop_foldl)
qed

text \<open>
  C9. An integral \<open>mean\<close> is to be the truncating quotient of the sum by the count, and
  \<open>mean_variadic\<close> likewise. For \<open>std::size_t\<close> elements it is (lemmas
  \<open>size_t_mean_truncates\<close>, \<open>size_t_mean_variadic_truncates\<close> and
  \<open>size_t_variance_from_truncated_mean\<close>). For \<open>int\<close> arguments \<open>mean_variadic\<close>
  divides an \<open>int\<close> by \<open>sizeof...(args)\<close>, a \<open>std::size_t\<close>: the sum \<open>-3\<close> of \<open>-1\<close>
  and \<open>-2\<close> is converted to \<open>2^64 - 3\<close> before the division, and the result is
  9223372036854775806 and not \<open>-1\<close>.
\<close>

theorem mean_variadic_negative_int:
  "sum_variadic (+) [- 1, - 2 :: c_int] = Inr (- 3)
   \<and> mean_variadic (+) int_div_size_t [- 1, - 2 :: c_int] = Inr 9223372036854775806"
proof -
  have s: "sum_variadic (+) [- 1, - 2 :: c_int] = Inr (- 3)"
    by (simp add: sum_variadic_def)
  have "int_div_size_t (- 3) (length [- 1, - 2 :: c_int]) = 9223372036854775806"
    by (simp add: int_div_size_t_def)
  then have "mean_variadic (+) int_div_size_t [- 1, - 2 :: c_int] = Inr 9223372036854775806"
    unfolding mean_variadic_def s by (simp add: div_count_def)
  with s show ?thesis by simp
qed

text \<open>
  C10. On a non-empty sequence \<open>max\<close> returns one of the elements of the sequence, and
  \<open>max_variadic\<close> returns one of its arguments: neither result is ever a value that
  was not passed in.
\<close>

theorem max_returns_member:
  "(contenedor \<noteq> [] \<longrightarrow> max_seq dflt gt contenedor \<in> set contenedor)
   \<and> max_variadic gt first rest \<in> set (first # rest)"
proof
  show "contenedor \<noteq> [] \<longrightarrow> max_seq dflt gt contenedor \<in> set contenedor"
  proof (cases contenedor)
    case Nil
    then show ?thesis by simp
  next
    case (Cons primero resto)
    have "max_loop gt primero resto \<in> set (primero # resto)"
      by (rule max_loop_member)
    with Cons show ?thesis
      by (simp add: max_seq_def)
  qed
next
  show "max_variadic gt first rest \<in> set (first # rest)"
    unfolding max_variadic_def by (rule max_variadic_loop_member)
qed

theorem max_returns_member_witness:
  "[3, 1, 4, 1, 5, 9, 2, 6 :: size_t] \<noteq> []
   \<and> max_seq 0 size_t_gt [3, 1, 4, 1, 5, 9, 2, 6] = 9
   \<and> (9 :: size_t) \<in> set [3, 1, 4, 1, 5, 9, 2, 6]
   \<and> max_variadic size_t_gt 10 [5, 20, 1] = 20
   \<and> (20 :: size_t) \<in> set (10 # [5, 20, 1])"
proof -
  have a: "max_seq 0 size_t_gt [3, 1, 4, 1, 5, 9, 2, 6] = 9"
    by (simp add: max_seq_def size_t_gt_def)
  have b: "max_variadic size_t_gt 10 [5, 20, 1] = 20"
    by (simp add: max_variadic_def max_aux_def size_t_gt_def)
  from max_returns_member [of "[3, 1, 4, 1, 5, 9, 2, 6]" 0 size_t_gt 10 "[5, 20, 1]"] a b
  show ?thesis by simp
qed

end
